theory Spec2Isabelle
  imports Main "HOL-Library.Sublist"
begin

section \<open>Characters and whitespace\<close>

text \<open>
  The program works on Python \<open>str\<close> values.  They are modelled as \<open>string\<close>, so the
  development covers the code points below 256.  On those, \<open>str.strip()\<close>, the
  pattern \<open>\s\<close> and \<open>str.isspace\<close> agree on the characters listed in
  \<open>is_space\<close>, and \<open>\d\<close> matches the ten ASCII digits.
\<close>

definition newline :: char where
  "newline = CHR 0x0A"

definition is_space :: "char \<Rightarrow> bool" where
  "is_space ch =
     (ch = CHR 0x09 \<or> ch = CHR 0x0A \<or> ch = CHR 0x0B \<or> ch = CHR 0x0C \<or> ch = CHR 0x0D \<or>
      ch = CHR 0x1C \<or> ch = CHR 0x1D \<or> ch = CHR 0x1E \<or> ch = CHR 0x1F \<or> ch = CHR 0x20 \<or>
      ch = CHR 0x85 \<or> ch = CHR 0xA0)"

definition is_digit :: "char \<Rightarrow> bool" where
  "is_digit ch =
     (ch = CHR ''0'' \<or> ch = CHR ''1'' \<or> ch = CHR ''2'' \<or> ch = CHR ''3'' \<or> ch = CHR ''4'' \<or>
      ch = CHR ''5'' \<or> ch = CHR ''6'' \<or> ch = CHR ''7'' \<or> ch = CHR ''8'' \<or> ch = CHR ''9'')"

text \<open>\<open>str.strip()\<close>: whitespace removed at both ends.\<close>

definition strip :: "string \<Rightarrow> string" where
  "strip s = rev (dropWhile is_space (rev (dropWhile is_space s)))"

section \<open>The regular expressions of module \<open>re\<close>, as far as the program uses them\<close>

text \<open>
  A pattern is a term of \<open>rx\<close>.  \<open>Dot\<close> is \<open>.\<close> without \<open>re.DOTALL\<close> (any character
  but a newline), \<open>DotAll\<close> is \<open>.\<close> under \<open>re.DOTALL\<close>, \<open>Bol\<close> is \<open>^\<close> under
  \<open>re.MULTILINE\<close>, \<open>EndZ\<close> is \<open>\Z\<close>, \<open>Star\<close> and \<open>StarLazy\<close> are \<open>*\<close> and \<open>*?\<close>,
  \<open>Eps\<close> is the empty pattern, \<open>Group n\<close> is the \<open>n\<close>-th capturing group and \<open>Ahead\<close> is \<open>(?=...)\<close>.
\<close>

datatype rx =
    Eps
  | Chr char
  | NotChr char
  | Dot
  | DotAll
  | Space
  | Digit
  | Bol
  | EndZ
  | Seq rx rx
  | Alt rx rx
  | Star rx
  | StarLazy rx
  | Group nat rx
  | Ahead rx

text \<open>\<open>r+\<close> is \<open>r\<close> followed by \<open>r*\<close>; a literal word is the sequence of its characters.\<close>

definition Plus :: "rx \<Rightarrow> rx" where
  "Plus r = Seq r (Star r)"

primrec Word :: "string \<Rightarrow> rx" where
  "Word [] = Eps"
| "Word (x # xs) = Seq (Chr x) (Word xs)"

text \<open>
  A position in the subject string is the text still to be read, together with the
  one fact about the text already read that \<open>^\<close> asks for: whether the position is at
  the start of the string or directly after a newline.
\<close>

type_synonym pos = "bool \<times> string"
type_synonym caps = "(nat \<times> string) list"
type_synonym res = "(pos \<times> caps) option"
type_synonym cont = "pos \<Rightarrow> caps \<Rightarrow> res"

fun step :: "(char \<Rightarrow> bool) \<Rightarrow> pos \<Rightarrow> caps \<Rightarrow> cont \<Rightarrow> res" where
  "step P (b, []) c k = None"
| "step P (b, x # xs) c k = (if P x then k (x = newline, xs) c else None)"

text \<open>
  The backtracking loops of \<open>*\<close> and \<open>*?\<close>.  An iteration has to consume a character
  to be continued, so the number of characters left bounds the number of iterations.
  Every loop of the three patterns below runs over single characters; for such a body
  the loops are the plain scans \<open>scan_greedy\<close> and \<open>scan_lazy\<close> over the text, for any
  bound that is at least the length of the text (lemmas \<open>star_greedy_scan\<close> and
  \<open>star_lazy_scan\<close>).
\<close>

primrec star_greedy :: "(pos \<Rightarrow> caps \<Rightarrow> cont \<Rightarrow> res) \<Rightarrow> nat \<Rightarrow> pos \<Rightarrow> caps \<Rightarrow> cont \<Rightarrow> res" where
  "star_greedy m 0 p c k = k p c"
| "star_greedy m (Suc n) p c k =
     (case m p c (\<lambda>p' c'. if length (snd p') < length (snd p) then star_greedy m n p' c' k else None) of
        Some r \<Rightarrow> Some r
      | None \<Rightarrow> k p c)"

primrec star_lazy :: "(pos \<Rightarrow> caps \<Rightarrow> cont \<Rightarrow> res) \<Rightarrow> nat \<Rightarrow> pos \<Rightarrow> caps \<Rightarrow> cont \<Rightarrow> res" where
  "star_lazy m 0 p c k = k p c"
| "star_lazy m (Suc n) p c k =
     (case k p c of
        Some r \<Rightarrow> Some r
      | None \<Rightarrow> m p c (\<lambda>p' c'. if length (snd p') < length (snd p) then star_lazy m n p' c' k else None))"

text \<open>
  \<open>matcher r p c k\<close> tries the pattern \<open>r\<close> at position \<open>p\<close> with the captures \<open>c\<close>
  made so far, and hands every way of matching, in the order of preference of a
  backtracking engine, to the continuation \<open>k\<close> until one succeeds.
\<close>

primrec matcher :: "rx \<Rightarrow> pos \<Rightarrow> caps \<Rightarrow> cont \<Rightarrow> res" where
  "matcher Eps p c k = k p c"
| "matcher (Chr a) p c k = step (\<lambda>x. x = a) p c k"
| "matcher (NotChr a) p c k = step (\<lambda>x. x \<noteq> a) p c k"
| "matcher Dot p c k = step (\<lambda>x. x \<noteq> newline) p c k"
| "matcher DotAll p c k = step (\<lambda>x. True) p c k"
| "matcher Space p c k = step is_space p c k"
| "matcher Digit p c k = step is_digit p c k"
| "matcher Bol p c k = (if fst p then k p c else None)"
| "matcher EndZ p c k = (if snd p = [] then k p c else None)"
| "matcher (Seq r1 r2) p c k = matcher r1 p c (\<lambda>p' c'. matcher r2 p' c' k)"
| "matcher (Alt r1 r2) p c k =
     (case matcher r1 p c k of Some r \<Rightarrow> Some r | None \<Rightarrow> matcher r2 p c k)"
| "matcher (Star r) p c k = star_greedy (matcher r) (length (snd p)) p c k"
| "matcher (StarLazy r) p c k = star_lazy (matcher r) (length (snd p)) p c k"
| "matcher (Group n r) p c k =
     matcher r p c (\<lambda>p' c'. k p' ((n, take (length (snd p) - length (snd p')) (snd p)) # c'))"
| "matcher (Ahead r) p c k =
     (case matcher r p c (\<lambda>p' c'. Some (p', c')) of Some (p', c') \<Rightarrow> k p c' | None \<Rightarrow> None)"

text \<open>A match attempt at one position: the end of the match and the groups.\<close>

definition match_at :: "rx \<Rightarrow> pos \<Rightarrow> res" where
  "match_at r p = matcher r p [] (\<lambda>p' c'. Some (p', c'))"

text \<open>
  \<open>m.group(n)\<close>, for a group that took part in the match.  In the three patterns below
  every group is part of every match.
\<close>

definition group_of :: "caps \<Rightarrow> nat \<Rightarrow> string" where
  "group_of c n = (case map_of c n of Some s \<Rightarrow> s | None \<Rightarrow> [])"

text \<open>
  \<open>re.search\<close>: the match at the leftmost position that has one.
\<close>

fun search_from :: "rx \<Rightarrow> pos \<Rightarrow> res" where
  "search_from r (b, []) = match_at r (b, [])"
| "search_from r (b, x # xs) =
     (case match_at r (b, x # xs) of
        Some m \<Rightarrow> Some m
      | None \<Rightarrow> search_from r (x = newline, xs))"

definition search :: "rx \<Rightarrow> string \<Rightarrow> res" where
  "search r s = search_from r (True, s)"

text \<open>
  \<open>re.finditer\<close>: the matches from left to right, each search starting where the
  previous match ended.  A match is recorded as the text left at its start, the text
  left at its end, and its groups.  After a position without a match, and after an
  empty match, the scan moves on by one character; the two patterns that the program
  iterates over have no empty match (lemmas \<open>chapter_match_shape\<close> and
  \<open>line_match_nonempty\<close>).
\<close>

function finditer_from :: "rx \<Rightarrow> pos \<Rightarrow> (string \<times> string \<times> caps) list" where
  "finditer_from r (b, s) =
     (case match_at r (b, s) of
        Some ((b', s'), c) \<Rightarrow>
          (s, s', c) #
            (if length s' < length s then finditer_from r (b', s')
             else (case s of [] \<Rightarrow> [] | x # xs \<Rightarrow> finditer_from r (x = newline, xs)))
      | None \<Rightarrow> (case s of [] \<Rightarrow> [] | x # xs \<Rightarrow> finditer_from r (x = newline, xs)))"
  by pat_completeness auto
termination
  by (relation "measure (\<lambda>(r, b, s). length s)") auto

definition finditer :: "rx \<Rightarrow> string \<Rightarrow> (string \<times> string \<times> caps) list" where
  "finditer r s = finditer_from r (True, s)"

text \<open>\<open>re.findall\<close> for a pattern with one group: the list of what the group captured.\<close>

definition findall :: "rx \<Rightarrow> string \<Rightarrow> string list" where
  "findall r s = map (\<lambda>(st, en, c). group_of c 1) (finditer r s)"

section \<open>String methods\<close>

text \<open>
  \<open>s.partition(sep)\<close>: the text before the first occurrence of \<open>sep\<close>, \<open>sep\<close>, and
  the text after it; \<open>(s, '', '')\<close> when \<open>sep\<close> does not occur.
\<close>

fun partition_str :: "string \<Rightarrow> string \<Rightarrow> string \<times> string \<times> string" where
  "partition_str sep [] = ([], [], [])"
| "partition_str sep (x # xs) =
     (if prefix sep (x # xs) then ([], sep, drop (length sep) (x # xs))
      else (case partition_str sep xs of (bef, m, aft) \<Rightarrow> (x # bef, m, aft)))"

text \<open>\<open>s.split(sep, 1)[-1]\<close>: the text after the first \<open>sep\<close>, or \<open>s\<close> without one.\<close>

definition split1_last :: "string \<Rightarrow> string \<Rightarrow> string" where
  "split1_last sep s = (case partition_str sep s of (bef, m, aft) \<Rightarrow> if m = [] then s else aft)"

section \<open>The patterns of \<open>process_document\<close>\<close>

definition numerals :: "string list" where
  "numerals = [''I'', ''II'', ''III'', ''IV'', ''V'', ''VI'', ''VII'', ''VIII'', ''IX'', ''X'', ''XI'',
     ''XII'', ''XIII'']"

text \<open>\<open>I|II|III|IV|V|VI|VII|VIII|IX|X|XI|XII|XIII\<close>\<close>

definition numeral_alt :: rx where
  "numeral_alt =
     Alt (Word ''I'') (Alt (Word ''II'') (Alt (Word ''III'') (Alt (Word ''IV'') (Alt (Word ''V'')
     (Alt (Word ''VI'') (Alt (Word ''VII'') (Alt (Word ''VIII'') (Alt (Word ''IX'') (Alt (Word ''X'')
     (Alt (Word ''XI'') (Alt (Word ''XII'') (Word ''XIII''))))))))))))"

text \<open>\<open><pre[^>]*>(.*?)</pre>\<close> with \<open>re.DOTALL\<close>\<close>

definition pre_regex :: rx where
  "pre_regex =
     Seq (Word ''<pre'') (Seq (Star (NotChr (CHR ''>''))) (Seq (Chr (CHR ''>''))
       (Seq (Group 1 (StarLazy DotAll)) (Word ''</pre>''))))"

text \<open>
  \<open>^(I|...|XIII)\.\s+(.*?)\n((?:.|\n)*?)(?=^(?:I|...|XIII)\.|\Z)\<close> with
  \<open>re.MULTILINE\<close>
\<close>

definition chapter_regex :: rx where
  "chapter_regex =
     Seq Bol (Seq (Group 1 numeral_alt) (Seq (Chr (CHR ''.'')) (Seq (Plus Space)
       (Seq (Group 2 (StarLazy Dot)) (Seq (Chr newline)
         (Seq (Group 3 (StarLazy (Alt Dot (Chr newline))))
           (Ahead (Alt (Seq Bol (Seq numeral_alt (Chr (CHR ''.'')))) EndZ))))))))"

text \<open>
  \<open>^\s*\d+\.\s+(.*?)(?=\n\s*\d+\.|\n\s*I|II|III|IV|V|VI|VII|VIII|IX|X|XI|XII|XIII\.\s|\Z)\<close>
  with \<open>re.MULTILINE | re.DOTALL\<close>.  The alternation of the lookahead has fifteen
  branches: concatenation binds tighter than \<open>|\<close>.
\<close>

definition line_stop :: rx where
  "line_stop =
     Alt (Seq (Chr newline) (Seq (Star Space) (Seq (Plus Digit) (Chr (CHR ''.'')))))
     (Alt (Seq (Chr newline) (Seq (Star Space) (Chr (CHR ''I''))))
     (Alt (Word ''II'') (Alt (Word ''III'') (Alt (Word ''IV'') (Alt (Word ''V'')
     (Alt (Word ''VI'') (Alt (Word ''VII'') (Alt (Word ''VIII'') (Alt (Word ''IX'') (Alt (Word ''X'')
     (Alt (Word ''XI'') (Alt (Word ''XII'')
     (Alt (Seq (Word ''XIII'') (Seq (Chr (CHR ''.'')) Space))
      EndZ)))))))))))))"

definition line_regex :: rx where
  "line_regex =
     Seq Bol (Seq (Star Space) (Seq (Plus Digit) (Seq (Chr (CHR ''.'')) (Seq (Plus Space)
       (Seq (Group 1 (StarLazy DotAll)) (Ahead line_stop))))))"

section \<open>\<open>process_document\<close>\<close>

text \<open>
  The two \<open>ValueError\<close>s of the function, by their messages; each is printed and ends
  the run with \<open>quit()\<close>.
\<close>

datatype error = No_pre_tag_found | Empty_pre_tag

text \<open>
  The dictionaries that are written out, as records.  The keys \<open>by\<close> and
  \<open>translated-by\<close> of the \<open>meta\<close> dictionary are the fields \<open>by_author\<close> and
  \<open>translated_by\<close>.
\<close>

record chapter_entry =
  chapter_number :: string
  chapter_title :: string
  content :: "string list"

record meta_info =
  name :: string
  by_author :: string
  translated_by :: string

record document =
  meta :: meta_info
  chapters :: "chapter_entry list"
  copyright :: string

text \<open>Steps 1 and 2: the split at \<open>THE END\<close> and the copyright text of the footer.\<close>

definition split_document :: "string \<Rightarrow> string \<times> string" where
  "split_document full_text =
     (case partition_str ''THE END'' full_text of
        (bef, m, aft) \<Rightarrow> (strip bef, strip aft))"

definition copyright_info :: "string \<Rightarrow> string" where
  "copyright_info footer = strip (split1_last ''---'' footer)"

text \<open>The numbered lines of a chapter's content block, stripped.\<close>

definition extract_lines :: "string \<Rightarrow> string list" where
  "extract_lines content_block = map strip (findall line_regex content_block)"

text \<open>Steps 3 and 4: the loop over the matches of \<open>chapter_regex\<close>.\<close>

definition make_chapter :: "caps \<Rightarrow> chapter_entry" where
  "make_chapter c =
     \<lparr>chapter_number = group_of c 1,
      chapter_title = strip (group_of c 2),
      content = extract_lines (group_of c 3)\<rparr>"

definition find_chapters :: "string \<Rightarrow> chapter_entry list" where
  "find_chapters main_content = map (\<lambda>(st, en, c). make_chapter c) (finditer chapter_regex main_content)"

text \<open>Step 5, after the \<open><pre>\<close> block has been read.\<close>

definition fixed_meta :: meta_info where
  "fixed_meta = \<lparr>name = ''Art of War'', by_author = ''Sun Tzu'', translated_by = ''Lionel Giles''\<rparr>"

definition parse_text :: "string \<Rightarrow> document" where
  "parse_text full_text =
     (case split_document full_text of
        (main_content, footer) \<Rightarrow>
          \<lparr>meta = fixed_meta,
           chapters = find_chapters main_content,
           copyright = copyright_info footer\<rparr>)"

text \<open>
  The function from the text of the input file to the data that is written out, or to
  the error that ends the run.
\<close>

definition process_document :: "string \<Rightarrow> error + document" where
  "process_document html_content =
     (case search pre_regex html_content of
        None \<Rightarrow> Inl No_pre_tag_found
      | Some (p, c) \<Rightarrow>
          (let full_text = strip (group_of c 1)
           in if full_text = [] then Inl Empty_pre_tag else Inr (parse_text full_text)))"

section \<open>Notions used in the statements and proofs\<close>

text \<open>The numbers of the groups of a pattern.\<close>

primrec groups_of :: "rx \<Rightarrow> nat set" where
  "groups_of Eps = {}"
| "groups_of (Chr a) = {}"
| "groups_of (NotChr a) = {}"
| "groups_of Dot = {}"
| "groups_of DotAll = {}"
| "groups_of Space = {}"
| "groups_of Digit = {}"
| "groups_of Bol = {}"
| "groups_of EndZ = {}"
| "groups_of (Seq r1 r2) = groups_of r1 \<union> groups_of r2"
| "groups_of (Alt r1 r2) = groups_of r1 \<union> groups_of r2"
| "groups_of (Star r) = groups_of r"
| "groups_of (StarLazy r) = groups_of r"
| "groups_of (Group n r) = insert n (groups_of r)"
| "groups_of (Ahead r) = groups_of r"

text \<open>
  Whether a position is at a line start after the text \<open>ys\<close> has been read from a
  position whose flag was \<open>b\<close>.
\<close>

definition after :: "bool \<Rightarrow> string \<Rightarrow> bool" where
  "after b ys = (if ys = [] then b else last ys = newline)"

text \<open>
  \<open>passes G b s c k res\<close>: the result \<open>res\<close> was produced by the continuation \<open>k\<close>, called
  at a position further on in \<open>s\<close> and with captures added for groups in \<open>G\<close> only.
\<close>

definition passes :: "nat set \<Rightarrow> bool \<Rightarrow> string \<Rightarrow> caps \<Rightarrow> cont \<Rightarrow> pos \<times> caps \<Rightarrow> bool" where
  "passes G b s c k res =
     (\<exists>ys rest cs. s = ys @ rest \<and> fst ` set cs \<subseteq> G \<and> k (after b ys, rest) (cs @ c) = Some res)"


text \<open>The alternation of a list of words, in the order of the list.\<close>

fun alt_of_words :: "string list \<Rightarrow> rx" where
  "alt_of_words [] = Eps"
| "alt_of_words [w] = Word w"
| "alt_of_words (w # v # ws) = Alt (Word w) (alt_of_words (v # ws))"




text \<open>
  The loops of \<open>*?\<close> and \<open>*\<close> over a character class, as recursions over the text:
  the forms in which the loops of the matcher are reasoned about.
\<close>

fun scan_lazy :: "(char \<Rightarrow> bool) \<Rightarrow> pos \<Rightarrow> caps \<Rightarrow> cont \<Rightarrow> res" where
  "scan_lazy P (b, []) c k = k (b, []) c"
| "scan_lazy P (b, x # xs) c k =
     (case k (b, x # xs) c of
        Some r \<Rightarrow> Some r
      | None \<Rightarrow> if P x then scan_lazy P (x = newline, xs) c k else None)"

fun scan_greedy :: "(char \<Rightarrow> bool) \<Rightarrow> pos \<Rightarrow> caps \<Rightarrow> cont \<Rightarrow> res" where
  "scan_greedy P (b, []) c k = k (b, []) c"
| "scan_greedy P (b, x # xs) c k =
     (if P x then
        (case scan_greedy P (x = newline, xs) c k of
           Some r \<Rightarrow> Some r
         | None \<Rightarrow> k (b, x # xs) c)
      else k (b, x # xs) c)"








section \<open>Every result of the matcher comes from its continuation\<close>

lemma after_Nil [simp]: "after b [] = b"
  by (simp add: after_def)

lemma after_Cons [simp]: "after b (y # ys) = after (y = newline) ys"
  by (simp add: after_def)

lemma after_append [simp]: "after b (xs @ ys) = after (after b xs) ys"
  by (induction xs arbitrary: b) simp_all

lemma passesI:
  "s = ys @ rest \<Longrightarrow> fst ` set cs \<subseteq> G \<Longrightarrow> k (after b ys, rest) (cs @ c) = Some res \<Longrightarrow>
   passes G b s c k res"
  unfolding passes_def by blast

lemma passes_here: "k (b, s) c = Some res \<Longrightarrow> passes G b s c k res"
  by (rule passesI[of _ "[]" _ "[]"]) simp_all

lemma passes_step:
  "step P (b, s) c k = Some res \<Longrightarrow> passes G b s c k res"
proof (cases s)
  case Nil
  then show "step P (b, s) c k = Some res \<Longrightarrow> ?thesis" by simp
next
  case (Cons x xs)
  assume "step P (b, s) c k = Some res"
  with Cons have "k (x = newline, xs) c = Some res" by (simp split: if_splits)
  with Cons show ?thesis by (intro passesI[of _ "[x]" xs "[]"]) simp_all
qed

lemma star_lazy_passes:
  assumes body: "\<And>b s c k res. m (b, s) c k = Some res \<Longrightarrow> passes G b s c k res"
  shows "star_lazy m n (b, s) c k = Some res \<Longrightarrow> passes G b s c k res"
proof (induction n arbitrary: b s c)
  case 0
  then show ?case by (simp add: passes_here)
next
  case (Suc n)
  show ?case
  proof (cases "k (b, s) c")
    case (Some r)
    with Suc.prems have "k (b, s) c = Some res" by simp
    then show ?thesis by (rule passes_here)
  next
    case None
    with Suc.prems have "m (b, s) c (\<lambda>p' c'. if length (snd p') < length s then star_lazy m n p' c' k else None) = Some res"
      by simp
    from body[OF this] obtain ys rest cs where
      s: "s = ys @ rest" and cs: "fst ` set cs \<subseteq> G"
      and st: "star_lazy m n (after b ys, rest) (cs @ c) k = Some res"
      unfolding passes_def by (auto split: if_splits)
    from Suc.IH[OF st] obtain ys' rest' cs' where
      "rest = ys' @ rest'" "fst ` set cs' \<subseteq> G" "k (after (after b ys) ys', rest') (cs' @ cs @ c) = Some res"
      unfolding passes_def by auto
    with s cs show ?thesis
      by (intro passesI[of _ "ys @ ys'" rest' "cs' @ cs"]) auto
  qed
qed

lemma star_greedy_passes:
  assumes body: "\<And>b s c k res. m (b, s) c k = Some res \<Longrightarrow> passes G b s c k res"
  shows "star_greedy m n (b, s) c k = Some res \<Longrightarrow> passes G b s c k res"
proof (induction n arbitrary: b s c)
  case 0
  then show ?case by (simp add: passes_here)
next
  case (Suc n)
  let ?k' = "\<lambda>p' c'. if length (snd p') < length s then star_greedy m n p' c' k else None"
  show ?case
  proof (cases "m (b, s) c ?k'")
    case None
    with Suc.prems have "k (b, s) c = Some res" by simp
    then show ?thesis by (rule passes_here)
  next
    case (Some r)
    with Suc.prems have "m (b, s) c ?k' = Some res"
      by simp
    from body[OF this] obtain ys rest cs where
      s: "s = ys @ rest" and cs: "fst ` set cs \<subseteq> G"
      and st: "star_greedy m n (after b ys, rest) (cs @ c) k = Some res"
      unfolding passes_def by (auto split: if_splits)
    from Suc.IH[OF st] obtain ys' rest' cs' where
      "rest = ys' @ rest'" "fst ` set cs' \<subseteq> G" "k (after (after b ys) ys', rest') (cs' @ cs @ c) = Some res"
      unfolding passes_def by auto
    with s cs show ?thesis
      by (intro passesI[of _ "ys @ ys'" rest' "cs' @ cs"]) auto
  qed
qed

lemma passes_mono: "passes G b s c k res \<Longrightarrow> G \<subseteq> H \<Longrightarrow> passes H b s c k res"
  unfolding passes_def by blast

lemma passes_seq:
  assumes "passes G b s c (\<lambda>p' c'. m2 p' c' k) res"
    and "\<And>b s c. m2 (b, s) c k = Some res \<Longrightarrow> passes H b s c k res"
  shows "passes (G \<union> H) b s c k res"
proof -
  from assms(1) obtain ys rest cs where
    s: "s = ys @ rest" and cs: "fst ` set cs \<subseteq> G" and m2: "m2 (after b ys, rest) (cs @ c) k = Some res"
    unfolding passes_def by auto
  from assms(2)[OF m2] obtain ys' rest' cs' where
    "rest = ys' @ rest'" "fst ` set cs' \<subseteq> H" "k (after (after b ys) ys', rest') (cs' @ cs @ c) = Some res"
    unfolding passes_def by auto
  with s cs show ?thesis
    by (intro passesI[of _ "ys @ ys'" rest' "cs' @ cs"]) auto
qed

lemma matcher_passes:
  "matcher r (b, s) c k = Some res \<Longrightarrow> passes (groups_of r) b s c k res"
proof (induction r arbitrary: b s c k res)
  case (Seq r1 r2)
  from Seq.prems have "matcher r1 (b, s) c (\<lambda>p' c'. matcher r2 p' c' k) = Some res" by simp
  from Seq.IH(1)[OF this] have "passes (groups_of r1) b s c (\<lambda>p' c'. matcher r2 p' c' k) res" .
  then show ?case using Seq.IH(2) by (simp add: passes_seq)
next
  case (Alt r1 r2)
  show ?case
  proof (cases "matcher r1 (b, s) c k")
    case None
    with Alt.prems have "matcher r2 (b, s) c k = Some res" by simp
    from Alt.IH(2)[OF this] show ?thesis by (rule passes_mono) simp
  next
    case (Some r)
    with Alt.prems have "matcher r1 (b, s) c k = Some res" by simp
    from Alt.IH(1)[OF this] show ?thesis by (rule passes_mono) simp
  qed
next
  case (Star r)
  then show ?case using star_greedy_passes[of "matcher r" "groups_of r"] by simp
next
  case (StarLazy r)
  then show ?case using star_lazy_passes[of "matcher r" "groups_of r"] by simp
next
  case (Group n r)
  from Group.prems have
    "matcher r (b, s) c (\<lambda>p' c'. k p' ((n, take (length s - length (snd p')) s) # c')) = Some res"
    by simp
  from Group.IH[OF this] obtain ys rest cs where
    "s = ys @ rest" "fst ` set cs \<subseteq> groups_of r" "k (after b ys, rest) ((n, ys) # cs @ c) = Some res"
    unfolding passes_def by auto
  then show ?case
    by (intro passesI[of _ ys rest "(n, ys) # cs"]) auto
next
  case (Ahead r)
  from Ahead.prems obtain p' c' where
    m: "matcher r (b, s) c (\<lambda>p' c'. Some (p', c')) = Some (p', c')" and k: "k (b, s) c' = Some res"
    by (auto split: option.splits)
  from Ahead.IH[OF m] obtain cs where "fst ` set cs \<subseteq> groups_of r" "c' = cs @ c"
    unfolding passes_def by auto
  with k show ?case
    by (intro passesI[of _ "[]" s cs]) auto
qed (auto dest!: passes_step split: if_splits intro: passes_here)

section \<open>Words, the numeral alternation and the shape of a chapter match\<close>

lemma word_matcher:
  "matcher (Word w) (b, s) c k =
     (if prefix w s then k (after b w, drop (length w) s) c else None)"
proof (induction w arbitrary: b s)
  case Nil
  show ?case by simp
next
  case (Cons x w)
  show ?case
  proof (cases s)
    case Nil
    then show ?thesis by simp
  next
    case (Cons y ys)
    with Cons.IH show ?thesis by simp
  qed
qed


lemma numeral_alt_words: "numeral_alt = alt_of_words numerals"
  by (simp add: numeral_alt_def numerals_def)

lemma alt_of_words_sound:
  "ws \<noteq> [] \<Longrightarrow> matcher (alt_of_words ws) (b, s) c k = Some res \<Longrightarrow>
   \<exists>w\<in>set ws. prefix w s \<and> k (after b w, drop (length w) s) c = Some res"
proof (induction ws rule: alt_of_words.induct)
  case 1
  then show ?case by simp
next
  case (2 w)
  then show ?case by (simp add: word_matcher split: if_splits)
next
  case (3 w v ws)
  show ?case
  proof (cases "matcher (Word w) (b, s) c k")
    case None
    with "3.prems" have "matcher (alt_of_words (v # ws)) (b, s) c k = Some res" by simp
    with "3.IH" show ?thesis by auto
  next
    case (Some r)
    with "3.prems" have "matcher (Word w) (b, s) c k = Some res" by simp
    then show ?thesis by (simp add: word_matcher split: if_splits)
  qed
qed


lemma after_numeral: "n \<in> set numerals \<Longrightarrow> after b n = False"
  by (auto simp: numerals_def newline_def)

lemma numeral_alt_sound:
  assumes "matcher numeral_alt (b, s) c k = Some res"
  shows "\<exists>n\<in>set numerals. prefix n s \<and> k (False, drop (length n) s) c = Some res"
proof -
  have "numerals \<noteq> []" by (simp add: numerals_def)
  from alt_of_words_sound[OF this assms[unfolded numeral_alt_words]]
  show ?thesis by (auto simp: after_numeral)
qed

lemma group_skip:
  "fst ` set cs \<subseteq> G \<Longrightarrow> n \<notin> G \<Longrightarrow> group_of (cs @ c) n = group_of c n"
proof -
  assume "fst ` set cs \<subseteq> G" "n \<notin> G"
  then have "map_of cs n = None" by (auto simp: map_of_eq_None_iff)
  then show ?thesis by (simp add: group_of_def map_add_def)
qed


lemmas matcher_Eps = matcher.simps(1)
lemmas matcher_Chr = matcher.simps(2)
lemmas matcher_NotChr = matcher.simps(3)
lemmas matcher_Dot = matcher.simps(4)
lemmas matcher_DotAll = matcher.simps(5)
lemmas matcher_Space = matcher.simps(6)
lemmas matcher_Digit = matcher.simps(7)
lemmas matcher_Bol = matcher.simps(8)
lemmas matcher_Seq = matcher.simps(10)
lemmas matcher_Star = matcher.simps(12)
lemmas matcher_StarLazy = matcher.simps(13)
lemmas matcher_Group = matcher.simps(14)

declare matcher.simps [simp del]

lemma step_Some:
  "step P (b, s) c k = Some res \<Longrightarrow> \<exists>x xs. s = x # xs \<and> P x \<and> k (x = newline, xs) c = Some res"
  by (cases s) (auto split: if_splits)

lemma groups_of_Word [simp]: "groups_of (Word w) = {}"
  by (induction w) simp_all

lemma groups_of_numeral_alt [simp]: "groups_of numeral_alt = {}"
  by (simp add: numeral_alt_def)

lemma passes_empty:
  "passes {} b s c k res \<Longrightarrow> \<exists>ys rest. s = ys @ rest \<and> k (after b ys, rest) c = Some res"
  unfolding passes_def by auto

lemma chapter_match_shape:
  assumes m: "match_at chapter_regex (b, s) = Some ((b', s'), c)"
  shows "b \<and> (\<exists>n\<in>set numerals. \<exists>w t rest ys.
           is_space w \<and> s = n @ ''.'' @ w # t @ newline # rest \<and> group_of c 1 = n \<and>
           rest = ys @ s' \<and> b' = after True ys)"
proof -
  define ret :: cont where "ret = (\<lambda>p' c'. Some (p', c'))"
  define tail where "tail = Seq (Group 3 (StarLazy (Alt Dot (Chr newline))))
           (Ahead (Alt (Seq Bol (Seq numeral_alt (Chr (CHR ''.'')))) EndZ))"
  define r4 where "r4 = Seq (Chr newline) tail"
  define r3 where "r3 = Seq (Group 2 (StarLazy Dot)) r4"
  define r1 where "r1 = Seq (Chr (CHR ''.'')) (Seq (Plus Space) r3)"
  have cr: "chapter_regex = Seq Bol (Seq (Group 1 numeral_alt) r1)"
    by (simp add: chapter_regex_def r1_def r3_def r4_def tail_def)
  have gt: "groups_of tail = {3}"
    by (simp add: tail_def)
  from m have b: b and m1:
    "matcher numeral_alt (b, s) [] (\<lambda>p' c'. matcher r1 p' ((1, take (length s - length (snd p')) s) # c') ret)
       = Some ((b', s'), c)"
    by (simp_all add: match_at_def cr ret_def matcher_Seq matcher_Bol matcher_Group split: if_splits)
  from numeral_alt_sound[OF m1] obtain n where n: "n \<in> set numerals" "prefix n s"
    and k1: "matcher r1 (False, drop (length n) s) [(1, take (length s - length (drop (length n) s)) s)] ret
       = Some ((b', s'), c)"
    by auto
  from n(2) obtain s1 where s1: "s = n @ s1" by (auto simp: prefix_def)
  with k1 have "matcher r1 (False, s1) [(1, n)] ret = Some ((b', s'), c)" by simp
  then have "step (\<lambda>x. x = CHR ''.'') (False, s1) [(1, n)]
      (\<lambda>p c. step is_space p c (\<lambda>p c. matcher (Star Space) p c (\<lambda>p c. matcher r3 p c ret)))
      = Some ((b', s'), c)"
    by (simp add: r1_def Plus_def matcher_Seq matcher_Chr matcher_Space)
  from step_Some[OF this] obtain s2 where s2: "s1 = CHR ''.'' # s2"
    and "step is_space (CHR ''.'' = newline, s2) [(1, n)]
       (\<lambda>p c. matcher (Star Space) p c (\<lambda>p c. matcher r3 p c ret)) = Some ((b', s'), c)"
    by auto
  from step_Some[OF this(2)] obtain w s3 where s3: "s2 = w # s3" "is_space w"
    and k2: "matcher (Star Space) (w = newline, s3) [(1, n)] (\<lambda>p c. matcher r3 p c ret) = Some ((b', s'), c)"
    by auto
  from passes_empty[OF matcher_passes[OF k2, simplified]] obtain t1 s4 where
    t1: "s3 = t1 @ s4"
    and "matcher r3 (after (w = newline) t1, s4) [(1, n)] ret = Some ((b', s'), c)"
    by auto
  then have k3: "matcher (Group 2 (StarLazy Dot)) (after (w = newline) t1, s4) [(1, n)]
      (\<lambda>p c. matcher r4 p c ret) = Some ((b', s'), c)"
    by (simp add: r3_def matcher_Seq)
  from matcher_passes[OF k3] obtain t2 s5 c2 where
    t2: "s4 = t2 @ s5" "fst ` set c2 \<subseteq> {2}"
    and "matcher r4 (after (after (w = newline) t1) t2, s5) (c2 @ [(1, n)]) ret = Some ((b', s'), c)"
    unfolding passes_def by auto
  then have "step (\<lambda>x. x = newline) (after (after (w = newline) t1) t2, s5) (c2 @ [(1, n)])
      (\<lambda>p c. matcher tail p c ret) = Some ((b', s'), c)"
    by (simp add: r4_def matcher_Seq matcher_Chr)
  from step_Some[OF this] obtain rest where r: "s5 = newline # rest"
    and k4: "matcher tail (True, rest) (c2 @ [(1, n)]) ret = Some ((b', s'), c)"
    by auto
  from matcher_passes[OF k4] obtain ys rest' c3 where
    ys: "rest = ys @ rest'" "fst ` set c3 \<subseteq> {3}"
    and e: "ret (after True ys, rest') (c3 @ c2 @ [(1, n)]) = Some ((b', s'), c)"
    unfolding passes_def gt by auto
  from e have "b' = after True ys" "s' = rest'" and c: "c = c3 @ (c2 @ [(1, n)])"
    by (auto simp: ret_def)
  moreover have "group_of c 1 = n"
    using group_skip[OF ys(2), of 1 "c2 @ [(1, n)]"] group_skip[OF t2(2), of 1 "[(1, n)]"] c
    by (simp add: group_of_def)
  moreover have "s = n @ ''.'' @ w # (t1 @ t2) @ newline # rest"
    using s1 s2 s3 t1 t2 r by simp
  ultimately show ?thesis using b n(1) s3(2) ys(1) by blast
qed

section \<open>The matches of \<open>finditer\<close>\<close>

declare finditer_from.simps [simp del]

lemma match_at_end:
  assumes "match_at r (b, s) = Some ((b', s'), c)"
  shows "\<exists>ys. s = ys @ s' \<and> b' = after b ys \<and> fst ` set c \<subseteq> groups_of r"
proof -
  from assms have "matcher r (b, s) [] (\<lambda>p' c'. Some (p', c')) = Some ((b', s'), c)"
    by (simp add: match_at_def)
  from matcher_passes[OF this] show ?thesis
    unfolding passes_def by auto
qed

lemma finditer_from_unfold:
  "finditer_from r (b, s) =
     (case match_at r (b, s) of
        Some ((b', s'), c) \<Rightarrow>
          (s, s', c) #
            (if length s' < length s then finditer_from r (b', s')
             else (case s of [] \<Rightarrow> [] | x # xs \<Rightarrow> finditer_from r (x = newline, xs)))
      | None \<Rightarrow> (case s of [] \<Rightarrow> [] | x # xs \<Rightarrow> finditer_from r (x = newline, xs)))"
  by (rule finditer_from.simps)

lemma finditer_from_matches:
  "(st, en, c) \<in> set (finditer_from r (b, s)) \<Longrightarrow>
   \<exists>pre b1. s = pre @ st \<and> match_at r (after b pre, st) = Some ((b1, en), c)"
proof (induction "length s" arbitrary: b s rule: less_induct)
  case less
  have step: "\<exists>pre b1. s = pre @ st \<and> match_at r (after b pre, st) = Some ((b1, en), c)"
    if "(st, en, c) \<in> set (case s of [] \<Rightarrow> [] | x # xs \<Rightarrow> finditer_from r (x = newline, xs))"
  proof (cases s)
    case Nil
    with that show ?thesis by simp
  next
    case (Cons x xs)
    with that have "(st, en, c) \<in> set (finditer_from r (x = newline, xs))" by simp
    from less.hyps[OF _ this] Cons obtain pre b1 where
      "xs = pre @ st" "match_at r (after (x = newline) pre, st) = Some ((b1, en), c)"
      by auto
    with Cons show ?thesis by (intro exI[of _ "x # pre"] exI[of _ b1]) simp
  qed
  show ?case
  proof (cases "match_at r (b, s)")
    case None
    with less.prems step show ?thesis
      by (subst (asm) finditer_from_unfold) simp
  next
    case (Some m)
    then obtain b' s' c0 where m: "match_at r (b, s) = Some ((b', s'), c0)"
      by (cases m) auto
    from match_at_end[OF m] obtain ys where ys: "s = ys @ s'" "b' = after b ys" by auto
    from less.prems m consider
      (here) "(st, en, c) = (s, s', c0)"
      | (later) "length s' < length s" "(st, en, c) \<in> set (finditer_from r (b', s'))"
      | (skip) "(st, en, c) \<in> set (case s of [] \<Rightarrow> [] | x # xs \<Rightarrow> finditer_from r (x = newline, xs))"
      by (subst (asm) finditer_from_unfold) (auto split: if_splits)
    then show ?thesis
    proof cases
      case here
      with m show ?thesis by (intro exI[of _ "[]"] exI[of _ b']) simp
    next
      case later
      from less.hyps[OF later] obtain pre b1 where
        "s' = pre @ st" "match_at r (after b' pre, st) = Some ((b1, en), c)" by auto
      with ys show ?thesis by (intro exI[of _ "ys @ pre"] exI[of _ b1]) simp
    next
      case skip
      with step show ?thesis by simp
    qed
  qed
qed





section \<open>The loops over a character class\<close>

lemma star_lazy_scan:
  "length s \<le> n \<Longrightarrow> star_lazy (step P) n (b, s) c k = scan_lazy P (b, s) c k"
proof (induction s arbitrary: n b)
  case Nil
  then show ?case by (cases n) (simp_all split: option.splits)
next
  case (Cons x xs)
  then obtain m where n: "n = Suc m" "length xs \<le> m" by (cases n) auto
  with Cons.IH[of m "x = newline"] show ?case by (simp split: option.splits)
qed

lemma star_greedy_scan:
  "length s \<le> n \<Longrightarrow> star_greedy (step P) n (b, s) c k = scan_greedy P (b, s) c k"
proof (induction s arbitrary: n b)
  case Nil
  then show ?case by (cases n) (simp_all split: option.splits)
next
  case (Cons x xs)
  then obtain m where n: "n = Suc m" "length xs \<le> m" by (cases n) auto
  with Cons.IH[of m "x = newline"] show ?case by (simp split: option.splits)
qed

lemma matcher_classes:
  "matcher (Chr a) = step (\<lambda>x. x = a)"
  "matcher (NotChr a) = step (\<lambda>x. x \<noteq> a)"
  "matcher Dot = step (\<lambda>x. x \<noteq> newline)"
  "matcher DotAll = step (\<lambda>x. True)"
  "matcher Space = step is_space"
  "matcher Digit = step is_digit"
  by (intro ext, simp add: matcher.simps)+

lemma any_char: "matcher (Alt Dot (Chr newline)) = step (\<lambda>x. True)"
proof (intro ext)
  fix p :: pos and c k
  obtain b s where p: "p = (b, s)" by (cases p)
  show "matcher (Alt Dot (Chr newline)) p c k = step (\<lambda>x. True) p c k"
    unfolding p by (cases s) (simp_all add: matcher.simps split: option.splits)
qed

text \<open>The greedy loop: the longest run wins when the continuation succeeds after it.\<close>

lemma scan_greedy_longest:
  assumes "list_all P a" and "\<not> P x" and "k (after b a, x # rest) c = Some r"
  shows "scan_greedy P (b, a @ x # rest) c k = Some r"
  using assms
proof (induction a arbitrary: b)
  case Nil
  then show ?case by simp
next
  case (Cons y a)
  then have "scan_greedy P (y = newline, a @ x # rest) c k = Some r" by simp
  with Cons.prems show ?case by simp
qed

lemma scan_greedy_longest_end:
  assumes "list_all P a" and "k (after b a, []) c = Some r"
  shows "scan_greedy P (b, a) c k = Some r"
  using assms
proof (induction a arbitrary: b)
  case Nil
  then show ?case by simp
next
  case (Cons y a)
  then have "scan_greedy P (y = newline, a) c k = Some r" by simp
  with Cons.prems show ?case by simp
qed

text \<open>The lazy loop: the first position where the continuation succeeds.\<close>

lemma scan_lazy_first:
  assumes "list_all P m"
    and "\<And>p q. m = p @ q \<Longrightarrow> q \<noteq> [] \<Longrightarrow> k (after b p, q @ rest) c = None"
  shows "scan_lazy P (b, m @ rest) c k = scan_lazy P (after b m, rest) c k"
  using assms
proof (induction m arbitrary: b)
  case Nil
  then show ?case by simp
next
  case (Cons y m)
  have here: "k (b, (y # m) @ rest) c = None"
    using Cons.prems(2)[of "[]" "y # m"] by simp
  have "scan_lazy P (y = newline, m @ rest) c k = scan_lazy P (after (y = newline) m, rest) c k"
  proof (rule Cons.IH)
    show "list_all P m" using Cons.prems(1) by simp
    fix p q assume "m = p @ q" "q \<noteq> []"
    with Cons.prems(2)[of "y # p" q] show "k (after (y = newline) p, q @ rest) c = None" by simp
  qed
  with here Cons.prems(1) show ?case by simp
qed

lemma scan_lazy_hit:
  "k (b, s) c = Some r \<Longrightarrow> scan_lazy P (b, s) c k = Some r"
  by (cases s) simp_all

lemma scan_lazy_stop:
  assumes "list_all P m"
    and "\<And>p q. m = p @ q \<Longrightarrow> q \<noteq> [] \<Longrightarrow> k (after b p, q @ rest) c = None"
    and "k (after b m, rest) c = Some r"
  shows "scan_lazy P (b, m @ rest) c k = Some r"
proof -
  have "scan_lazy P (b, m @ rest) c k = scan_lazy P (after b m, rest) c k"
    using assms(1,2) by (rule scan_lazy_first)
  moreover have "scan_lazy P (after b m, rest) c k = Some r"
    using assms(3) by (rule scan_lazy_hit)
  ultimately show ?thesis by simp
qed

section \<open>\<open>partition\<close> and the first occurrence of the separator\<close>

lemma prefix_of_longer_front:
  "prefix xs (ys @ zs) \<Longrightarrow> length xs \<le> length ys \<Longrightarrow> prefix xs ys"
  by (auto simp: prefix_append)

lemma early_prefix_is_sublist:
  assumes "prefix sep (b @ sep @ f)" and "b \<noteq> []" and "sep \<noteq> []"
  shows "sublist sep (b @ butlast sep)"
proof -
  from \<open>sep \<noteq> []\<close> have "b @ sep @ f = (b @ butlast sep) @ (last sep # f)"
    by simp
  with assms(1) have "prefix sep ((b @ butlast sep) @ (last sep # f))" by simp
  moreover from \<open>b \<noteq> []\<close> \<open>sep \<noteq> []\<close> have "length sep \<le> length (b @ butlast sep)"
    by (cases b) simp_all
  ultimately have "prefix sep (b @ butlast sep)" by (rule prefix_of_longer_front)
  then show ?thesis by (rule prefix_imp_sublist)
qed

lemma partition_str_first:
  assumes "sep \<noteq> []" and "\<not> sublist sep (b @ butlast sep)"
  shows "partition_str sep (b @ sep @ f) = (b, sep, f)"
  using assms(2)
proof (induction b)
  case Nil
  from \<open>sep \<noteq> []\<close> obtain x xs where "sep @ f = x # xs" by (cases sep) auto
  then show ?case by simp (metis append_eq_conv_conj prefixI)
next
  case (Cons y b)
  have np: "\<not> prefix sep ((y # b) @ sep @ f)"
    using early_prefix_is_sublist[of sep "y # b" f] Cons.prems \<open>sep \<noteq> []\<close> by blast
  have "\<not> sublist sep (b @ butlast sep)"
    using Cons.prems by (simp add: sublist_Cons_right)
  with Cons.IH np show ?case by simp
qed

lemma partition_str_absent:
  "\<not> sublist sep s \<Longrightarrow> partition_str sep s = (s, [], [])"
  by (induction s) (auto simp: sublist_Cons_right)


section \<open>\<open>search\<close> and the match of \<open>pre_regex\<close>\<close>

declare Word.simps [simp del]

lemma matcher_StarLazy_class:
  assumes "matcher r = step P"
  shows "matcher (StarLazy r) p c k = scan_lazy P p c k"
proof -
  obtain b s where p: "p = (b, s)" by (cases p)
  show ?thesis unfolding p matcher_StarLazy assms by (simp add: star_lazy_scan)
qed

lemma matcher_Star_class:
  assumes "matcher r = step P"
  shows "matcher (Star r) p c k = scan_greedy P p c k"
proof -
  obtain b s where p: "p = (b, s)" by (cases p)
  show ?thesis unfolding p matcher_Star assms by (simp add: star_greedy_scan)
qed

lemmas matcher_loops =
  matcher_StarLazy_class[OF matcher_classes(3)] matcher_StarLazy_class[OF matcher_classes(4)]
  matcher_StarLazy_class[OF any_char]
  matcher_Star_class[OF matcher_classes(2)] matcher_Star_class[OF matcher_classes(5)]
  matcher_Star_class[OF matcher_classes(6)]

lemma search_from_hit:
  "match_at r (b, s) = Some m \<Longrightarrow> search_from r (b, s) = Some m"
  by (cases s) simp_all

lemma search_from_skip:
  assumes "\<And>p q. u = p @ q \<Longrightarrow> q \<noteq> [] \<Longrightarrow> match_at r (after b p, q @ s) = None"
  shows "search_from r (b, u @ s) = search_from r (after b u, s)"
  using assms
proof (induction u arbitrary: b)
  case Nil
  show ?case by simp
next
  case (Cons y u)
  have "match_at r (b, (y # u) @ s) = None"
    using Cons.prems[of "[]" "y # u"] by simp
  moreover have "search_from r (y = newline, u @ s) = search_from r (after (y = newline) u, s)"
  proof (rule Cons.IH)
    fix p q assume "u = p @ q" "q \<noteq> []"
    with Cons.prems[of "y # p" q] show "match_at r (after (y = newline) p, q @ s) = None" by simp
  qed
  ultimately show ?case by simp
qed

lemma search_from_sound:
  "search_from r (b, s) = Some m \<Longrightarrow> \<exists>p q. s = p @ q \<and> match_at r (after b p, q) = Some m"
proof (induction s arbitrary: b)
  case Nil
  then show ?case by simp
next
  case (Cons x xs)
  show ?case
  proof (cases "match_at r (b, x # xs)")
    case None
    with Cons.prems have "search_from r (x = newline, xs) = Some m" by simp
    from Cons.IH[OF this] obtain p q where "xs = p @ q" "match_at r (after (x = newline) p, q) = Some m"
      by auto
    then show ?thesis by (intro exI[of _ "x # p"] exI[of _ q]) simp
  next
    case (Some m')
    with Cons.prems have "match_at r (b, x # xs) = Some m" by simp
    then show ?thesis by (intro exI[of _ "[]"] exI[of _ "x # xs"]) simp
  qed
qed

lemma not_first_no_prefix:
  assumes "\<not> sublist w (u @ butlast w)" and "u = p @ q" and "q \<noteq> []" and "w \<noteq> []"
  shows "\<not> prefix w (q @ w @ rest)"
proof
  assume "prefix w (q @ w @ rest)"
  then have "sublist w (q @ butlast w)"
    using \<open>q \<noteq> []\<close> \<open>w \<noteq> []\<close> by (rule early_prefix_is_sublist)
  then obtain ps ss where "q @ butlast w = ps @ w @ ss"
    by (auto simp: sublist_def)
  then have "p @ q @ butlast w = (p @ ps) @ w @ ss" by simp
  then have "sublist w (p @ q @ butlast w)"
    unfolding sublist_def by blast
  with assms(1,2) show False by simp
qed

lemma pre_match_sound:
  assumes "match_at pre_regex (b, s) = Some ((b', s'), c)"
  shows "\<exists>a m. s = ''<pre'' @ a @ ''>'' @ m @ ''</pre>'' @ s'"
proof -
  define ret :: cont where "ret = (\<lambda>p' c'. Some (p', c'))"
  define r3 where "r3 = Seq (Group 1 (StarLazy DotAll)) (Word ''</pre>'')"
  define r2 where "r2 = Seq (Chr (CHR ''>'')) r3"
  have pr: "pre_regex = Seq (Word ''<pre'') (Seq (Star (NotChr (CHR ''>''))) r2)"
    by (simp add: pre_regex_def r2_def r3_def)
  from assms have "matcher (Word ''<pre'') (b, s) [] (\<lambda>p c. matcher (Star (NotChr (CHR ''>''))) p c (\<lambda>p c. matcher r2 p c ret))
     = Some ((b', s'), c)"
    by (simp add: match_at_def pr matcher_Seq ret_def)
  then obtain s1 where s1: "s = ''<pre'' @ s1"
    and "matcher (Star (NotChr (CHR ''>''))) (after b ''<pre'', s1) [] (\<lambda>p c. matcher r2 p c ret) = Some ((b', s'), c)"
    unfolding word_matcher by (auto simp: prefix_def split: if_splits)
  from passes_empty[OF matcher_passes[OF this(2), simplified]] obtain a s2 b2 where
    a: "s1 = a @ s2" and "matcher r2 (b2, s2) [] ret = Some ((b', s'), c)"
    by auto
  then have "step (\<lambda>x. x = CHR ''>'') (b2, s2) [] (\<lambda>p c. matcher (Group 1 (StarLazy DotAll)) p c
      (\<lambda>p c. matcher (Word ''</pre>'') p c ret)) = Some ((b', s'), c)"
    by (simp add: r2_def r3_def matcher_Seq matcher_Chr)
  from step_Some[OF this] obtain s3 b3 where s3: "s2 = CHR ''>'' # s3"
    and "matcher (Group 1 (StarLazy DotAll)) (b3, s3) []
      (\<lambda>p c. matcher (Word ''</pre>'') p c ret) = Some ((b', s'), c)"
    by auto
  from matcher_passes[OF this(2)] obtain m s4 b4 c4 where m: "s3 = m @ s4"
    and "matcher (Word ''</pre>'') (b4, s4) c4 ret = Some ((b', s'), c)"
    unfolding passes_def by auto
  then have "s4 = ''</pre>'' @ s'"
    unfolding word_matcher by (auto simp: prefix_def ret_def split: if_splits)
  with s1 a s3 m show ?thesis by (intro exI[of _ a] exI[of _ m]) simp
qed

lemma pre_match_exact:
  assumes a: "CHR ''>'' \<notin> set a"
    and m: "\<not> sublist ''</pre>'' (m @ ''</pre'')"
  shows "\<exists>b'. match_at pre_regex (b, ''<pre'' @ a @ ''>'' @ m @ ''</pre>'' @ v) = Some ((b', v), [(1, m)])"
proof -
  define ret :: cont where "ret = (\<lambda>p' c'. Some (p', c'))"
  define s3 where "s3 = m @ ''</pre>'' @ v"
  define k3 :: cont where "k3 = (\<lambda>p' c'. matcher (Word ''</pre>'') p' ((1, take (length s3 - length (snd p')) s3) # c') ret)"
  define k2 :: cont where "k2 = (\<lambda>p c. matcher (Chr (CHR ''>'')) p c (\<lambda>p c. matcher (Seq (Group 1 (StarLazy DotAll)) (Word ''</pre>'')) p c ret))"
  have lazy: "scan_lazy (\<lambda>x. True) (False, m @ ''</pre>'' @ v) [] k3 = Some ((after False (m @ ''</pre>''), v), [(1, m)])"
  proof (rule scan_lazy_stop)
    show "list_all (\<lambda>x. True) m" by (simp add: list_all_iff)
    show "k3 (after False p, q @ ''</pre>'' @ v) [] = None" if "m = p @ q" "q \<noteq> []" for p q
    proof -
      have "\<not> prefix ''</pre>'' (q @ ''</pre>'' @ v)"
        using not_first_no_prefix[of "''</pre>''" m p q v] m that by simp
      then show ?thesis by (simp add: k3_def word_matcher)
    qed
    show "k3 (after False m, ''</pre>'' @ v) [] = Some ((after False (m @ ''</pre>''), v), [(1, m)])"
      by (simp add: k3_def word_matcher ret_def s3_def)
  qed
  have g1: "matcher (Seq (Group 1 (StarLazy DotAll)) (Word ''</pre>'')) (False, s3) [] ret
      = Some ((after False (m @ ''</pre>''), v), [(1, m)])"
    using lazy
    by (simp add: matcher_Seq matcher_Group matcher_loops k3_def s3_def)
  have k2: "k2 (after False a, CHR ''>'' # s3) [] = Some ((after False (m @ ''</pre>''), v), [(1, m)])"
    using g1 by (simp add: k2_def matcher_Chr newline_def)
  have "scan_greedy (\<lambda>x. x \<noteq> CHR ''>'') (False, a @ CHR ''>'' # s3) [] k2
      = Some ((after False (m @ ''</pre>''), v), [(1, m)])"
    using a k2 by (intro scan_greedy_longest) (auto simp: list_all_iff)
  then have "matcher (Seq (Star (NotChr (CHR ''>''))) (Seq (Chr (CHR ''>'')) (Seq (Group 1 (StarLazy DotAll)) (Word ''</pre>''))))
      (False, a @ CHR ''>'' # s3) [] ret = Some ((after False (m @ ''</pre>''), v), [(1, m)])"
    by (simp add: matcher_Seq matcher_loops k2_def)
  then have "match_at pre_regex (b, ''<pre'' @ a @ CHR ''>'' # s3) = Some ((after False (m @ ''</pre>''), v), [(1, m)])"
    unfolding match_at_def pre_regex_def matcher_Seq[of "Word ''<pre''"] word_matcher ret_def
    by (simp add: newline_def)
  then show ?thesis by (simp add: s3_def)
qed


lemma pre_match_needs_prefix:
  "\<not> prefix ''<pre'' s \<Longrightarrow> match_at pre_regex (b, s) = None"
  unfolding match_at_def pre_regex_def matcher_Seq[of "Word ''<pre''"] word_matcher by simp

lemma strip_empty_iff: "strip s = [] \<longleftrightarrow> list_all is_space s"
proof
  assume "strip s = []"
  then have all: "\<forall>x\<in>set (dropWhile is_space s). is_space x"
    by (simp add: strip_def dropWhile_eq_Nil_conv)
  have "dropWhile is_space s = []"
  proof (rule ccontr)
    assume ne: "dropWhile is_space s \<noteq> []"
    then have "\<not> is_space (hd (dropWhile is_space s))" by (rule hd_dropWhile)
    moreover from ne have "hd (dropWhile is_space s) \<in> set (dropWhile is_space s)" by simp
    ultimately show False using all by blast
  qed
  then show "list_all is_space s" by (simp add: dropWhile_eq_Nil_conv list_all_iff)
next
  assume "list_all is_space s"
  then have "dropWhile is_space s = []" by (simp add: dropWhile_eq_Nil_conv list_all_iff)
  then show "strip s = []" by (simp add: strip_def del: dropWhile_eq_Nil_conv)
qed

lemma sublist_starts_inside:
  "sublist (x # w) (m @ t) \<Longrightarrow> length t \<le> length w \<Longrightarrow> x \<in> set m"
proof (induction m)
  case Nil
  then have "length (x # w) \<le> length t" using sublist_length_le[of "x # w" t] by simp
  with Nil.prems(2) show ?case by simp
next
  case (Cons y m)
  from Cons.prems(1) have "prefix (x # w) (y # m @ t) \<or> sublist (x # w) (m @ t)"
    by (simp add: sublist_Cons_right)
  then show ?case
  proof
    assume "prefix (x # w) (y # m @ t)"
    then show ?thesis by simp
  next
    assume "sublist (x # w) (m @ t)"
    with Cons.IH Cons.prems(2) show ?thesis by simp
  qed
qed

lemma blank_has_no_closing_tag:
  assumes "list_all is_space m"
  shows "\<not> sublist ''</pre>'' (m @ ''</pre'')"
proof
  assume "sublist ''</pre>'' (m @ ''</pre'')"
  then have "CHR ''<'' \<in> set m"
    using sublist_starts_inside[of "CHR ''<''" "''/pre>''" m "''</pre''"] by simp
  with assms have "is_space (CHR ''<'')" by (simp add: list_all_iff)
  then show False by (simp add: is_space_def)
qed

lemma envelope_extracted:
  assumes "\<not> sublist ''<pre'' (u @ ''<pr'')" and "CHR ''>'' \<notin> set a"
    and "\<not> sublist ''</pre>'' (m @ ''</pre'')"
  shows "\<exists>b'. search pre_regex (u @ ''<pre'' @ a @ ''>'' @ m @ ''</pre>'' @ v) = Some ((b', v), [(1, m)])"
proof -
  let ?s = "''<pre'' @ a @ ''>'' @ m @ ''</pre>'' @ v"
  have "search_from pre_regex (True, u @ ?s) = search_from pre_regex (after True u, ?s)"
  proof (rule search_from_skip)
    fix p q assume "u = p @ q" "q \<noteq> []"
    with assms(1) have "\<not> prefix ''<pre'' (q @ ''<pre'' @ a @ ''>'' @ m @ ''</pre>'' @ v)"
      using not_first_no_prefix[of "''<pre''" u p q "a @ ''>'' @ m @ ''</pre>'' @ v"] by simp
    then show "match_at pre_regex (after True p, q @ ?s) = None"
      by (rule pre_match_needs_prefix)
  qed
  moreover from pre_match_exact[OF assms(2,3), of "after True u" v] obtain b' where
    "match_at pre_regex (after True u, ?s) = Some ((b', v), [(1, m)])" by auto
  then have "search_from pre_regex (after True u, ?s) = Some ((b', v), [(1, m)])"
    by (rule search_from_hit)
  ultimately show ?thesis by (auto simp: search_def)
qed


section \<open>The match of \<open>chapter_regex\<close> at a chapter line\<close>














section \<open>The chapters of a body written as a sequence of chapters\<close>










section \<open>A match of \<open>line_regex\<close> is not empty\<close>

lemma line_match_nonempty:
  assumes "match_at line_regex (b, s) = Some ((b', s'), c)"
  shows "length s' < length s"
proof -
  define ret :: cont where "ret = (\<lambda>p' c'. Some (p', c'))"
  define r2 where "r2 = Seq (Star Digit) (Seq (Chr (CHR ''.'')) (Seq (Plus Space)
       (Seq (Group 1 (StarLazy DotAll)) (Ahead line_stop))))"
  from assms have "matcher (Star Space) (b, s) [] (\<lambda>p c. matcher Digit p c (\<lambda>p c. matcher r2 p c ret))
      = Some ((b', s'), c)"
    by (simp add: match_at_def line_regex_def r2_def Plus_def matcher_Seq matcher_Bol ret_def
        split: if_splits)
  from passes_empty[OF matcher_passes[OF this, simplified]] obtain ys s1 where
    s1: "s = ys @ s1"
    and "matcher Digit (after b ys, s1) [] (\<lambda>p c. matcher r2 p c ret) = Some ((b', s'), c)"
    by auto
  then have "step is_digit (after b ys, s1) [] (\<lambda>p c. matcher r2 p c ret) = Some ((b', s'), c)"
    by (simp add: matcher_Digit)
  from step_Some[OF this] obtain d s2 where s2: "s1 = d # s2"
    and "matcher r2 (d = newline, s2) [] ret = Some ((b', s'), c)"
    by auto
  from matcher_passes[OF this(2)] obtain zs where "s2 = zs @ s'"
    unfolding passes_def by (auto simp: ret_def)
  with s1 s2 show ?thesis by simp
qed
section \<open>The claims about the program\<close>

text \<open>
  C1.  The claim lets a numbered entry end only at the next numbered entry or at the
  end of the block.  The lookahead of \<open>line_regex\<close> has the branches \<open>II\<close>, \<open>III\<close>,
  \<open>IV\<close>, \<open>V\<close>, ..., \<open>XII\<close> on their own, so an entry also ends in front of any of
  these letter groups: the entry \<open>a V b\<close> of the file \<open><pre>I. A\n 1. a V b\n</pre>\<close> is
  cut to \<open>a\<close>, and the content block \<open>1. MIX\<close> gives the entry \<open>M\<close>.
\<close>

theorem entry_cut_at_numeral_letter:
  "process_document (''<pre>I. A'' @ [newline] @ '' 1. a V b'' @ [newline] @ ''</pre>'') =
     Inr \<lparr>meta = fixed_meta,
      chapters = [\<lparr>chapter_number = ''I'', chapter_title = ''A'', content = [''a'']\<rparr>],
      copyright = []\<rparr>
   \<and> extract_lines ''1. MIX'' = [''M'']"
  by code_simp







text \<open>
  C4.  The error contract of the envelope extractor.  A text that cannot be written as
  \<open>u <pre a > m </pre> v\<close> (no opening and closing tag in this order) ends the run
  with the error \<open>No <pre> tag found\<close> (\<open>EnvelopeNotFound\<close> of the specification).  When
  the first opening tag, with attribute text \<open>a\<close>, encloses only whitespace up to the
  closing tag, the run ends with the error \<open>Empty <pre> tag\<close> (\<open>EmptyPayload\<close>).  In
  both cases the result is the error alone: no document, whole or partial, is produced.
\<close>

theorem envelope_errors:
  "(\<not> (\<exists>u a m v. html_content = u @ ''<pre'' @ a @ ''>'' @ m @ ''</pre>'' @ v) \<longrightarrow>
      process_document html_content = Inl No_pre_tag_found)
   \<and> (html_content = u @ ''<pre'' @ a @ ''>'' @ m @ ''</pre>'' @ v \<and>
      \<not> sublist ''<pre'' (u @ ''<pr'') \<and> CHR ''>'' \<notin> set a \<and> strip m = [] \<longrightarrow>
      process_document html_content = Inl Empty_pre_tag)"
proof (intro conjI impI)
  assume none: "\<not> (\<exists>u a m v. html_content = u @ ''<pre'' @ a @ ''>'' @ m @ ''</pre>'' @ v)"
  have "search pre_regex html_content = None"
  proof (rule ccontr)
    assume "search pre_regex html_content \<noteq> None"
    then obtain b' s' c where "search_from pre_regex (True, html_content) = Some ((b', s'), c)"
      by (auto simp: search_def)
    from search_from_sound[OF this] obtain p q where
      pq: "html_content = p @ q" and "match_at pre_regex (after True p, q) = Some ((b', s'), c)"
      by auto
    from pre_match_sound[OF this(2)] obtain a m where "q = ''<pre'' @ a @ ''>'' @ m @ ''</pre>'' @ s'"
      by auto
    with pq have "html_content = p @ ''<pre'' @ a @ ''>'' @ m @ ''</pre>'' @ s'" by simp
    with none show False by blast
  qed
  then show "process_document html_content = Inl No_pre_tag_found"
    by (simp add: process_document_def)
next
  assume h: "html_content = u @ ''<pre'' @ a @ ''>'' @ m @ ''</pre>'' @ v \<and>
      \<not> sublist ''<pre'' (u @ ''<pr'') \<and> CHR ''>'' \<notin> set a \<and> strip m = []"
  then have "\<not> sublist ''</pre>'' (m @ ''</pre'')"
    by (simp add: strip_empty_iff blank_has_no_closing_tag)
  with h envelope_extracted[of u a m v] obtain b' where
    "search pre_regex html_content = Some ((b', v), [(1, m)])" by auto
  with h show "process_document html_content = Inl Empty_pre_tag"
    by (simp add: process_document_def group_of_def)
qed


theorem envelope_errors_witness:
  "process_document ''no tags'' = Inl No_pre_tag_found
   \<and> process_document (''x'' @ ''<pre'' @ '' class=a'' @ ''>'' @ ('' '' @ [newline]) @ ''</pre>'' @ ''y'') =
       Inl Empty_pre_tag"
proof -
  have h1: "\<not> (\<exists>u a m v. ''no tags'' = u @ ''<pre'' @ a @ ''>'' @ m @ ''</pre>'' @ v)"
  proof
    assume "\<exists>u a m v. ''no tags'' = u @ ''<pre'' @ a @ ''>'' @ m @ ''</pre>'' @ v"
    then obtain u a m v where "''no tags'' = u @ ''<pre'' @ a @ ''>'' @ m @ ''</pre>'' @ v" by blast
    then have "set ''no tags'' = set (u @ ''<pre'' @ a @ ''>'' @ m @ ''</pre>'' @ v)"
      by (rule arg_cong)
    moreover have "CHR ''<'' \<in> set (u @ ''<pre'' @ a @ ''>'' @ m @ ''</pre>'' @ v)" by simp
    ultimately have "CHR ''<'' \<in> set ''no tags''" by blast
    then show False by simp
  qed
  have h2: "\<not> sublist ''<pre'' (''x'' @ ''<pr'')" by code_simp
  have h3: "CHR ''>'' \<notin> set '' class=a''" by simp
  have h4: "strip ('' '' @ [newline]) = []" by code_simp
  from envelope_errors[of "''no tags''" "[]" "[]" "[]" "[]"] h1
    envelope_errors[of "''x'' @ ''<pre'' @ '' class=a'' @ ''>'' @ ('' '' @ [newline]) @ ''</pre>'' @ ''y''"
      "''x''" "'' class=a''" "'' '' @ [newline]" "''y''"] h2 h3 h4
  show ?thesis by blast
qed

text \<open>
  C5.  The document splitter.  The text is split at the first occurrence of
  \<open>THE END\<close> into the stripped text before it and the stripped text after it; without
  \<open>THE END\<close> the body is the whole stripped text and the footer is empty.  The copyright
  text is what follows the first \<open>---\<close> of the footer, stripped, or the whole stripped
  footer without \<open>---\<close>.  Both are total functions with no error result, and
  \<open>parse_text\<close> assembles the document from them.  That an occurrence of \<open>sep\<close> at
  the end of \<open>b @ sep\<close> is the first one is written \<open>\<not> sublist sep (b @ butlast sep)\<close>.
\<close>

theorem document_splitter:
  "(payload = b @ ''THE END'' @ f \<and> \<not> sublist ''THE END'' (b @ ''THE EN'') \<longrightarrow>
      split_document payload = (strip b, strip f))
   \<and> (\<not> sublist ''THE END'' payload \<longrightarrow> split_document payload = (strip payload, []))
   \<and> (footer = x @ ''---'' @ y \<and> \<not> sublist ''---'' (x @ ''--'') \<longrightarrow>
      copyright_info footer = strip y)
   \<and> (\<not> sublist ''---'' footer \<longrightarrow> copyright_info footer = strip footer)
   \<and> parse_text payload =
       \<lparr>meta = fixed_meta,
        chapters = find_chapters (fst (split_document payload)),
        copyright = copyright_info (snd (split_document payload))\<rparr>"
proof (intro conjI impI)
  assume "payload = b @ ''THE END'' @ f \<and> \<not> sublist ''THE END'' (b @ ''THE EN'')"
  then show "split_document payload = (strip b, strip f)"
    using partition_str_first[of "''THE END''" b f] by (simp add: split_document_def)
next
  assume "\<not> sublist ''THE END'' payload"
  then show "split_document payload = (strip payload, [])"
    by (simp add: split_document_def partition_str_absent strip_def)
next
  assume "footer = x @ ''---'' @ y \<and> \<not> sublist ''---'' (x @ ''--'')"
  then show "copyright_info footer = strip y"
    using partition_str_first[of "''---''" x y] by (simp add: copyright_info_def split1_last_def)
next
  assume "\<not> sublist ''---'' footer"
  then show "copyright_info footer = strip footer"
    by (simp add: copyright_info_def split1_last_def partition_str_absent)
next
  show "parse_text payload =
       \<lparr>meta = fixed_meta,
        chapters = find_chapters (fst (split_document payload)),
        copyright = copyright_info (snd (split_document payload))\<rparr>"
    by (simp add: parse_text_def split: prod.splits)
qed

theorem document_splitter_witness:
  "split_document (''ab '' @ ''THE END'' @ '' - ---c --- d'') = (''ab'', ''- ---c --- d'')
   \<and> split_document ''abc '' = (''abc'', [])
   \<and> copyright_info (''- '' @ ''---'' @ ''c --- d'') = ''c --- d''
   \<and> copyright_info ''abc'' = ''abc''"
proof -
  have h1: "\<not> sublist ''THE END'' (''ab '' @ ''THE EN'')" by code_simp
  have h2: "\<not> sublist ''THE END'' ''abc ''" by code_simp
  have h3: "\<not> sublist ''---'' (''- '' @ ''--'')" by code_simp
  have h4: "\<not> sublist ''---'' ''abc''" by code_simp
  have s1: "strip ''ab '' = ''ab''" "strip '' - ---c --- d'' = ''- ---c --- d''"
    "strip ''abc '' = ''abc''" "strip ''c --- d'' = ''c --- d''" "strip ''abc'' = ''abc''"
    by code_simp+
  show ?thesis
    using document_splitter[of "''ab '' @ ''THE END'' @ '' - ---c --- d''" "''ab ''" "'' - ---c --- d''" "''- '' @ ''---'' @ ''c --- d''" "''- ''" "''c --- d''"]
      document_splitter[of "''abc ''" "[]" "[]" "''abc''" "[]" "[]"] h1 h2 h3 h4 s1
    by simp
qed

text \<open>
  C6.  Scenario 1 of the specification: the text
  \<open>"I. A\n 1. x\n 2. y\n\nII. B\n 1. z\n\nTHE END\n---\nC 2025"\<close> is parsed into exactly
  two chapters, \<open>I\<close> with title \<open>A\<close> and content \<open>x, y\<close>, and \<open>II\<close> with title \<open>B\<close>
  and content \<open>z\<close>, and the copyright text \<open>C 2025\<close>; the same holds when the text
  arrives inside a \<open><pre>\<close> block.
\<close>

theorem scenario_1_two_chapters:
  "parse_text (''I. A'' @ [newline] @ '' 1. x'' @ [newline] @ '' 2. y'' @ [newline, newline] @
      ''II. B'' @ [newline] @ '' 1. z'' @ [newline, newline] @ ''THE END'' @ [newline] @ ''---'' @
      [newline] @ ''C 2025'') =
     \<lparr>meta = fixed_meta,
      chapters =
        [\<lparr>chapter_number = ''I'', chapter_title = ''A'', content = [''x'', ''y'']\<rparr>,
         \<lparr>chapter_number = ''II'', chapter_title = ''B'', content = [''z'']\<rparr>],
      copyright = ''C 2025''\<rparr>
   \<and> process_document (''<pre>'' @ ''I. A'' @ [newline] @ '' 1. x'' @ [newline] @ '' 2. y'' @
      [newline, newline] @ ''II. B'' @ [newline] @ '' 1. z'' @ [newline, newline] @ ''THE END'' @
      [newline] @ ''---'' @ [newline] @ ''C 2025'' @ ''</pre>'') =
     Inr \<lparr>meta = fixed_meta,
      chapters =
        [\<lparr>chapter_number = ''I'', chapter_title = ''A'', content = [''x'', ''y'']\<rparr>,
         \<lparr>chapter_number = ''II'', chapter_title = ''B'', content = [''z'']\<rparr>],
      copyright = ''C 2025''\<rparr>"
  by code_simp

text \<open>
  C7.  The file \<open><pre>I. A\n1. V\n2. a</pre>\<close> has a chapter with the entries \<open>""\<close> and
  \<open>a\<close>: the first entry ends in front of \<open>V\<close>.  With the markers put back, as
  \<open>1. \n2. a\<close>, on one line as \<open>1. 2. a\<close>, or indented and ended by a newline, the
  line extractor returns the single entry \<open>2. a\<close>, not the two entries.
\<close>

theorem reinserted_entries_differ:
  "process_document (''<pre>I. A'' @ [newline] @ ''1. V'' @ [newline] @ ''2. a</pre>'') =
     Inr \<lparr>meta = fixed_meta,
      chapters = [\<lparr>chapter_number = ''I'', chapter_title = ''A'', content = [[], ''a'']\<rparr>],
      copyright = []\<rparr>
   \<and> extract_lines (''1. '' @ [newline] @ ''2. a'') = [''2. a'']
   \<and> extract_lines ''1. 2. a'' = [''2. a'']
   \<and> extract_lines ('' 1. '' @ [newline] @ '' 2. a'' @ [newline]) = [''2. a'']"
  by code_simp

text \<open>
  C9.  The shape of the output.  A document is a record of exactly the fields \<open>meta\<close>,
  \<open>chapters\<close> and \<open>copyright\<close>.  For every input that is parsed, \<open>meta\<close> is the constant
  \<open>fixed_meta\<close>, whatever the input, and every \<open>chapter_number\<close> is one of the thirteen
  label strings.  It is the label as matched: for every match of \<open>chapter_regex\<close> in a
  body, the text at the start of the match begins with the \<open>chapter_number\<close> made from the
  match, followed by the period.
\<close>

theorem document_shape:
  "(process_document html_content = Inr d \<longrightarrow>
      d = \<lparr>meta = fixed_meta, chapters = chapters d, copyright = copyright d\<rparr> \<and>
      (\<forall>ch\<in>set (chapters d). chapter_number ch \<in> set numerals))
   \<and> (\<forall>(st, en, c)\<in>set (finditer chapter_regex body).
        chapter_number (make_chapter c) \<in> set numerals \<and>
        prefix (chapter_number (make_chapter c) @ ''.'') st)"
proof -
  have matches: "chapter_number (make_chapter c) \<in> set numerals \<and>
      prefix (chapter_number (make_chapter c) @ ''.'') st"
    if "(st, en, c) \<in> set (finditer chapter_regex main_content)" for st en c main_content
  proof -
    from that finditer_from_matches[of st en c chapter_regex True main_content] obtain b0 b1 where
      "match_at chapter_regex (b0, st) = Some ((b1, en), c)"
      by (auto simp: finditer_def)
    from chapter_match_shape[OF this] show ?thesis
      by (auto simp: make_chapter_def)
  qed
  have "d = \<lparr>meta = fixed_meta, chapters = chapters d, copyright = copyright d\<rparr> \<and>
      (\<forall>ch\<in>set (chapters d). chapter_number ch \<in> set numerals)"
    if "process_document html_content = Inr d"
  proof -
    from that obtain full_text where "d = parse_text full_text"
      by (auto simp: process_document_def Let_def split: option.splits if_splits)
    then show ?thesis
      using matches by (auto simp: parse_text_def find_chapters_def split: prod.splits)
  qed
  with matches show ?thesis by blast
qed

theorem document_shape_witness:
  "process_document (''<pre>XIII. A'' @ [newline] @ ''x</pre>'') =
     Inr \<lparr>meta = fixed_meta,
          chapters = [\<lparr>chapter_number = ''XIII'', chapter_title = ''A'', content = []\<rparr>],
          copyright = []\<rparr>
   \<and> ''XIII'' \<in> set numerals"
proof -
  have e: "process_document (''<pre>XIII. A'' @ [newline] @ ''x</pre>'') =
     Inr \<lparr>meta = fixed_meta,
          chapters = [\<lparr>chapter_number = ''XIII'', chapter_title = ''A'', content = []\<rparr>],
          copyright = []\<rparr>"
    by code_simp
  from document_shape[of "''<pre>XIII. A'' @ [newline] @ ''x</pre>''"
      "\<lparr>meta = fixed_meta,
          chapters = [\<lparr>chapter_number = ''XIII'', chapter_title = ''A'', content = []\<rparr>],
          copyright = []\<rparr>" "[]"] e
  show ?thesis by simp
qed

text \<open>
  C10.  A chapter-start line that is the last line of the body and has no newline after
  it starts no chapter: a match of \<open>chapter_regex\<close> needs a newline after the title.  A
  body without a newline, such as a single line \<open>I. Title\<close>, has no chapters; and when
  the body ends with a line without a newline, every match starts before that line.
\<close>

theorem final_line_without_newline:
  assumes "newline \<notin> set line"
  shows "find_chapters line = [] \<and>
    (\<forall>(st, en, c)\<in>set (finditer chapter_regex (pre @ line)). length line < length st)"
proof -
  have later: "length line < length st" if "(st, en, c) \<in> set (finditer chapter_regex (pre' @ line))"
    for st en c pre'
  proof -
    from that finditer_from_matches[of st en c chapter_regex True "pre' @ line"] obtain p b0 b1 where
      p: "pre' @ line = p @ st" and "match_at chapter_regex (b0, st) = Some ((b1, en), c)"
      by (auto simp: finditer_def)
    from chapter_match_shape[OF this(2)] have nl: "newline \<in> set st" by auto
    show ?thesis
    proof (rule ccontr)
      assume "\<not> length line < length st"
      with p have "suffix st line"
        by (auto simp: suffix_def append_eq_append_conv2)
      then have "set st \<subseteq> set line" by (rule set_mono_suffix)
      with nl assms show False by auto
    qed
  qed
  have "finditer chapter_regex line = []"
  proof (cases "finditer chapter_regex line")
    case Nil
    then show ?thesis .
  next
    case (Cons m ms)
    obtain st en c where "m = (st, en, c)" by (cases m) auto
    with Cons later[of st en c "[]"] have "length line < length st" by simp
    moreover from Cons \<open>m = (st, en, c)\<close> finditer_from_matches[of st en c chapter_regex True line]
    have "length st \<le> length line" by (auto simp: finditer_def)
    ultimately show ?thesis by simp
  qed
  then have "find_chapters line = []" by (simp add: find_chapters_def)
  with later show ?thesis by blast
qed

theorem final_line_without_newline_witness:
  "newline \<notin> set ''I. Title'' \<and> find_chapters ''I. Title'' = [] \<and>
   list_all (\<lambda>(st, en, c). length ''I. Title'' < length st)
     (finditer chapter_regex ((''II. B'' @ [newline] @ ''x'' @ [newline]) @ ''I. Title''))"
proof -
  have h: "newline \<notin> set ''I. Title''" by (simp add: newline_def)
  from final_line_without_newline[OF h, of "''II. B'' @ [newline] @ ''x'' @ [newline]"] h
  show ?thesis by (simp add: list_all_iff)
qed

section \<open>The text of a \<open><pre>\<close> block that is parsed\<close>

text \<open>
  When the first opening tag \<open><pre a>\<close> of the input is followed by a text \<open>m\<close> that is
  not blank and by the first closing tag after it, the document is the one parsed from
  the stripped text \<open>m\<close>; what stands before the opening tag and after the closing tag
  has no effect.
\<close>

theorem envelope_payload:
  assumes "\<not> sublist ''<pre'' (u @ ''<pr'')" and "CHR ''>'' \<notin> set a"
    and "\<not> sublist ''</pre>'' (m @ ''</pre'')" and "strip m \<noteq> []"
  shows "process_document (u @ ''<pre'' @ a @ ''>'' @ m @ ''</pre>'' @ v) = Inr (parse_text (strip m))"
proof -
  from envelope_extracted[OF assms(1-3), of v] obtain b' where
    "search pre_regex (u @ ''<pre'' @ a @ ''>'' @ m @ ''</pre>'' @ v) = Some ((b', v), [(1, m)])"
    by auto
  with assms(4) show ?thesis by (simp add: process_document_def group_of_def)
qed

theorem envelope_payload_witness:
  "process_document (''<html>'' @ ''<pre'' @ '' id=t'' @ ''>'' @ ([newline] @ ''V. E'' @ [newline] @ ''1. f '') @
      ''</pre>'' @ ''</html>'') = Inr (parse_text (''V. E'' @ [newline] @ ''1. f''))"
proof -
  have h1: "\<not> sublist ''<pre'' (''<html>'' @ ''<pr'')" by code_simp
  have h2: "CHR ''>'' \<notin> set '' id=t''" by simp
  have h3: "\<not> sublist ''</pre>'' (([newline] @ ''V. E'' @ [newline] @ ''1. f '') @ ''</pre'')" by code_simp
  have h4: "strip ([newline] @ ''V. E'' @ [newline] @ ''1. f '') = ''V. E'' @ [newline] @ ''1. f''" by code_simp
  from h4 have h5: "strip ([newline] @ ''V. E'' @ [newline] @ ''1. f '') \<noteq> []" by simp
  from envelope_payload[OF h1 h2 h3 h5, of "''</html>''"] h4 show ?thesis by simp
qed

end
